theory Spec2Isabelle
  imports Main "HOL-Library.Word" "HOL-Library.Sublist"
begin

section \<open>Data model\<close>

text \<open>
  The program is \<^verbatim>\<open>today\<close>: a command-line tool over go-git that prints the messages of the
  commits made in a recent time window. The embedding follows the latest variant of the
  source (the one that carries the author filter); names are those of the Go code.

  Errors are values. \<open>EOF\<close> is Go's \<^verbatim>\<open>io.EOF\<close>, which go-git's commit iterator returns from
  \<^verbatim>\<open>Next\<close> when the history is exhausted; \<open>Err s\<close> is any other error, with its text.
\<close>

datatype error = EOF | Err string

text \<open>
  \<^verbatim>\<open>object.Signature\<close> and \<^verbatim>\<open>object.Commit\<close>, with the fields the program reads. An instant
  (\<^verbatim>\<open>time.Time\<close>) is an integer count of nanoseconds; \<^verbatim>\<open>UTC()\<close> changes the location of a
  \<^verbatim>\<open>time.Time\<close>, not its instant, so it does not appear.
\<close>

type_synonym instant = int

record signature =
  Name :: string
  Email :: string
  When :: instant

record commit =
  Author :: signature
  Message :: string

text \<open>
  \<^verbatim>\<open>object.CommitIter\<close>: the results that successive calls of \<^verbatim>\<open>Next\<close> will return. A call
  on the exhausted iterator returns \<^verbatim>\<open>io.EOF\<close>.
\<close>

type_synonym commitIter = "(error + commit) list"

definition Next :: "commitIter \<Rightarrow> (error + commit) \<times> commitIter" where
  "Next cIter = (case cIter of [] \<Rightarrow> (Inl EOF, []) | r # rest \<Rightarrow> (r, rest))"

text \<open>
  \<^verbatim>\<open>git.Repository\<close>, as far as the program uses it: \<^verbatim>\<open>Head()\<close> gives the hash of the current
  reference or fails, \<^verbatim>\<open>Log\<close> from a hash gives a commit iterator or fails.
\<close>

type_synonym hash = string

record repository =
  repo_Head :: "error + hash"
  repo_Log :: "hash \<Rightarrow> error + commitIter"

text \<open>The result of \<^verbatim>\<open>getCommitMessages\<close>: a Go \<^verbatim>\<open>map[string][]string\<close>.\<close>

type_synonym msgs = "string \<rightharpoonup> string list"

text \<open>
  Reading \<^verbatim>\<open>msgs[dir]\<close> in Go gives the zero value, a nil slice of length 0, when the key is
  absent.
\<close>

definition index_msgs :: "msgs \<Rightarrow> string \<Rightarrow> string list" where
  "index_msgs m dir = (case m dir of None \<Rightarrow> [] | Some l \<Rightarrow> l)"

section \<open>Library functions the program calls\<close>

text \<open>\<^verbatim>\<open>time.Time.After\<close>: strictly later.\<close>

definition After :: "instant \<Rightarrow> instant \<Rightarrow> bool" where
  "After t u = (u < t)"

text \<open>
  \<^verbatim>\<open>time.Time.Add\<close> of a \<^verbatim>\<open>time.Duration\<close>, a signed 64-bit count of nanoseconds. The unary
  minus of the call site \<^verbatim>\<open>now.Add(-since)\<close> is the machine negation, which wraps.
\<close>

type_synonym duration = "64 word"

definition Add :: "instant \<Rightarrow> duration \<Rightarrow> instant" where
  "Add t d = t + sint d"

text \<open>
  \<^verbatim>\<open>time.Now()\<close> reads the clock of the machine. The clock is the function \<open>clk\<close> from the
  number of readings made so far to the instant the next reading returns; the state is that
  number.
\<close>

type_synonym clock = "nat \<Rightarrow> instant"

definition Now :: "clock \<Rightarrow> nat \<Rightarrow> instant \<times> nat" where
  "Now clk n = (clk n, Suc n)"

text \<open>\<^verbatim>\<open>strings.Contains(s, substr)\<close>: \<open>substr\<close> occurs in \<open>s\<close> as a contiguous run of bytes.\<close>

fun strings_Contains :: "string \<Rightarrow> string \<Rightarrow> bool" where
  "strings_Contains [] substr = (substr = [])"
| "strings_Contains (c # s) substr = (prefix substr (c # s) \<or> strings_Contains s substr)"

text \<open>
  \<^verbatim>\<open>strings.Cut(s, sep)\<close>: the text before and after the first occurrence of \<open>sep\<close> and
  whether it occurs; without an occurrence, \<open>s\<close>, the empty string and false.
\<close>

fun strings_Cut :: "string \<Rightarrow> string \<Rightarrow> string \<times> string \<times> bool" where
  "strings_Cut [] sep = ([], [], sep = [])"
| "strings_Cut (c # s) sep =
     (if prefix sep (c # s) then ([], drop (length sep) (c # s), True)
      else (case strings_Cut s sep of (before, after, found) \<Rightarrow>
              if found then (c # before, after, True) else (c # s, [], False)))"

text \<open>
  \<^verbatim>\<open>filepath.Base\<close> on a system whose separator is the slash: the last element of the path,
  trailing slashes removed first; \<^verbatim>\<open>.\<close> for the empty path and \<^verbatim>\<open>/\<close> for a path of slashes
  only.
\<close>

definition filepath_Base :: "string \<Rightarrow> string" where
  "filepath_Base path =
     (if path = [] then ''.''
      else let stripped = rev (dropWhile (\<lambda>c. c = CHR ''/'') (rev path));
               element = rev (takeWhile (\<lambda>c. c \<noteq> CHR ''/'') (rev stripped))
           in if element = [] then ''/'' else element)"

section \<open>The program\<close>

text \<open>\<^verbatim>\<open>openGitDir\<close> and \<^verbatim>\<open>getRepositories\<close>; \<open>PlainOpen\<close> is go-git's \<^verbatim>\<open>git.PlainOpen\<close>.\<close>

definition openGitDir :: "(string \<Rightarrow> error + repository) \<Rightarrow> string \<Rightarrow> error + repository" where
  "openGitDir PlainOpen dir = (case PlainOpen dir of Inl err \<Rightarrow> Inl err | Inr repo \<Rightarrow> Inr repo)"

fun getRepositories_range ::
  "(string \<Rightarrow> error + repository) \<Rightarrow> string list \<Rightarrow> repository list \<Rightarrow> error + repository list" where
  "getRepositories_range PlainOpen [] repos = Inr repos"
| "getRepositories_range PlainOpen (dir # dirs) repos =
     (case openGitDir PlainOpen dir of
        Inl err \<Rightarrow> Inl err
      | Inr repo \<Rightarrow> getRepositories_range PlainOpen dirs (repos @ [repo]))"

definition getRepositories :: "(string \<Rightarrow> error + repository) \<Rightarrow> string list \<Rightarrow> error + repository list" where
  "getRepositories PlainOpen dirs = getRepositories_range PlainOpen dirs []"

text \<open>\<^verbatim>\<open>containsAuthor\<close>.\<close>

definition containsAuthor :: "commit \<Rightarrow> string \<Rightarrow> bool" where
  "containsAuthor c author = strings_Contains (Name (Author c)) author"

text \<open>
  \<^verbatim>\<open>getBaseDirectoryName\<close>; \<open>Getwd\<close> is the result of \<^verbatim>\<open>syscall.Getwd()\<close>, the current working
  directory or an error.
\<close>

definition getBaseDirectoryName :: "(error + string) \<Rightarrow> string \<Rightarrow> error + string" where
  "getBaseDirectoryName Getwd p =
     (if p = ''./'' \<or> p = ''.'' then
        (case Getwd of Inl err \<Rightarrow> Inl err | Inr currentDir \<Rightarrow> Inr (filepath_Base currentDir))
      else Inr (filepath_Base p))"

text \<open>The statement \<^verbatim>\<open>msgs[dir] = append(msgs[dir], m)\<close>.\<close>

definition append_msgs :: "msgs \<Rightarrow> string \<Rightarrow> string \<Rightarrow> msgs" where
  "append_msgs m dir s = m(dir \<mapsto> index_msgs m dir @ [s])"

text \<open>
  The inner loop of \<^verbatim>\<open>getCommitMessages\<close>,
  \<^verbatim>\<open>for commitTime.After(timeSince) { ... }\<close>, from the state in which \<open>currentCommit\<close> is the
  commit under examination and \<open>cIter\<close> the rest of the walk. The body first fetches the
  successor and returns the iterator's error if there is none; then it skips the current
  commit when an author is given and the commit does not match, or else appends its message,
  cut at the first line feed when \<open>short\<close> is set, under the key \<open>dir\<close>.
\<close>

function getCommitMessages_loop ::
  "string \<Rightarrow> bool \<Rightarrow> instant \<Rightarrow> string \<Rightarrow> commit \<Rightarrow> commitIter \<Rightarrow> msgs \<Rightarrow> error + msgs" where
  "getCommitMessages_loop author short timeSince dir currentCommit cIter m =
     (if After (When (Author currentCommit)) timeSince then
        (case Next cIter of
           (Inl err, cIter') \<Rightarrow> Inl err
         | (Inr nextCommit, cIter') \<Rightarrow>
             if author \<noteq> [] \<and> \<not> containsAuthor currentCommit author then
               getCommitMessages_loop author short timeSince dir nextCommit cIter' m
             else if short then
               getCommitMessages_loop author short timeSince dir nextCommit cIter'
                 (append_msgs m dir (fst (strings_Cut (Message currentCommit) [CHR 0x0A])))
             else
               getCommitMessages_loop author short timeSince dir nextCommit cIter'
                 (append_msgs m dir (Message currentCommit)))
      else Inr m)"
  by pat_completeness auto
termination
  by (relation "measure (\<lambda>(author, short, timeSince, dir, currentCommit, cIter, m). length cIter)")
     (auto simp: Next_def split: list.splits)

declare getCommitMessages_loop.simps [simp del]

text \<open>
  The body of the outer loop of \<^verbatim>\<open>getCommitMessages\<close>, for one entry \<open>dir\<close>, \<open>repo\<close> of
  \<open>dirToRepo\<close>. The state is the map built so far and the number of clock readings made so
  far. The empty slice is stored under \<open>sanitisedDir\<close>; the loop appends under \<open>dir\<close>.
\<close>

definition getCommitMessages_dir ::
  "(error + string) \<Rightarrow> clock \<Rightarrow> string \<Rightarrow> bool \<Rightarrow> duration \<Rightarrow> string \<Rightarrow> repository \<Rightarrow>
     msgs \<times> nat \<Rightarrow> error + msgs \<times> nat" where
  "getCommitMessages_dir Getwd clk author short since dir repo st =
     (case st of (m, n) \<Rightarrow>
      (case getBaseDirectoryName Getwd dir of
         Inl err \<Rightarrow> Inl err
       | Inr sanitisedDir \<Rightarrow>
          (case repo_Head repo of
             Inl err \<Rightarrow> Inl err
           | Inr ref \<Rightarrow>
              (case repo_Log repo ref of
                 Inl err \<Rightarrow> Inl err
               | Inr cIter \<Rightarrow>
                  (case Now clk n of (now, n') \<Rightarrow>
                   (case Next cIter of
                      (Inl err, cIter') \<Rightarrow> Inl err
                    | (Inr currentCommit, cIter') \<Rightarrow>
                       (case getCommitMessages_loop author short (Add now (- since)) dir
                                currentCommit cIter' (m(sanitisedDir \<mapsto> [])) of
                          Inl err \<Rightarrow> Inl err
                        | Inr m' \<Rightarrow> Inr (m', n'))))))))"

text \<open>
  The outer loop, \<^verbatim>\<open>for dir, repo := range dirToRepo\<close>. Go iterates over a map in an order
  of its own choosing: \<open>dirToRepo\<close> is the list of the entries of the map in the order this
  run visits them. Every property below holds for every order.
\<close>

fun getCommitMessages_range ::
  "(error + string) \<Rightarrow> clock \<Rightarrow> string \<Rightarrow> bool \<Rightarrow> duration \<Rightarrow> (string \<times> repository) list \<Rightarrow>
     msgs \<times> nat \<Rightarrow> error + msgs \<times> nat" where
  "getCommitMessages_range Getwd clk author short since [] st = Inr st"
| "getCommitMessages_range Getwd clk author short since ((dir, repo) # rest) st =
     (case getCommitMessages_dir Getwd clk author short since dir repo st of
        Inl err \<Rightarrow> Inl err
      | Inr st' \<Rightarrow> getCommitMessages_range Getwd clk author short since rest st')"

text \<open>
  \<^verbatim>\<open>getCommitMessages\<close>: the environment (\<open>Getwd\<close>, the clock and the number \<open>n\<close> of readings
  made before the call), then the arguments of the Go function. It returns the error, or the
  map together with the number of clock readings made.
\<close>

definition getCommitMessages ::
  "(error + string) \<Rightarrow> clock \<Rightarrow> nat \<Rightarrow> (string \<times> repository) list \<Rightarrow> string \<Rightarrow> bool \<Rightarrow> duration \<Rightarrow>
     error + msgs \<times> nat" where
  "getCommitMessages Getwd clk n dirToRepo author short since =
     getCommitMessages_range Getwd clk author short since dirToRepo (Map.empty, n)"

text \<open>
  What a caller reads from the result, as the tests do with \<^verbatim>\<open>msgs["today"]\<close>: the error, or
  the sequence stored under a key.
\<close>

definition messagesFor :: "error + msgs \<times> nat \<Rightarrow> string \<Rightarrow> error + string list" where
  "messagesFor r key = (case r of Inl err \<Rightarrow> Inl err | Inr (m, n) \<Rightarrow> Inr (index_msgs m key))"

text \<open>The keys of the returned map.\<close>

definition keysOf :: "error + msgs \<times> nat \<Rightarrow> error + string set" where
  "keysOf r = (case r of Inl err \<Rightarrow> Inl err | Inr (m, n) \<Rightarrow> Inr (dom m))"

section \<open>Notions used to state the properties\<close>

text \<open>
  The text the loop appends for a commit: its message, or with \<open>short\<close> the part of the
  message before the first line feed.
\<close>

definition shown :: "bool \<Rightarrow> commit \<Rightarrow> string" where
  "shown short c = (if short then takeWhile (\<lambda>x. x \<noteq> CHR 0x0A) (Message c) else Message c)"

text \<open>
  The texts appended for a run of commits that are all inside the window: those of the
  commits that pass the author filter, in the order of the walk.
\<close>

definition selected :: "string \<Rightarrow> bool \<Rightarrow> commit list \<Rightarrow> string list" where
  "selected author short cs = map (shown short) (filter (\<lambda>c. author = [] \<or> containsAuthor c author) cs)"

text \<open>The map after appending a sequence of texts under one key, one at a time.\<close>

definition append_all :: "msgs \<Rightarrow> string \<Rightarrow> string list \<Rightarrow> msgs" where
  "append_all m dir xs = foldl (\<lambda>m' s. append_msgs m' dir s) m xs"

section \<open>Sample data\<close>

text \<open>
  A commit with the given author name, time and message, and a repository whose head
  resolves and whose log is the given walk; they build the concrete histories at which the
  theorems are evaluated.
\<close>

definition commitAt :: "string \<Rightarrow> instant \<Rightarrow> string \<Rightarrow> commit" where
  "commitAt name t message = \<lparr>Author = \<lparr>Name = name, Email = [], When = t\<rparr>, Message = message\<rparr>"

definition repoOf :: "commitIter \<Rightarrow> repository" where
  "repoOf walk = \<lparr>repo_Head = Inr ''HEAD'', repo_Log = (\<lambda>h. Inr walk)\<rparr>"

section \<open>Library functions: what they compute\<close>


lemma strings_Cut_not_found: "strings_Cut s sep = (before, after, False) \<Longrightarrow> before = s"
  by (cases s) (auto split: prod.splits if_splits)

lemma strings_Cut_char: "fst (strings_Cut s [c]) = takeWhile (\<lambda>x. x \<noteq> c) s"
proof (induction s)
  case Nil
  then show ?case by simp
next
  case (Cons a s)
  obtain before after found where cut: "strings_Cut s [c] = (before, after, found)"
    by (cases "strings_Cut s [c]") auto
  with Cons.IH have before: "before = takeWhile (\<lambda>x. x \<noteq> c) s" by simp
  show ?case
  proof (cases found)
    case True
    with cut before show ?thesis by simp
  next
    case False
    with cut have "before = s" by (auto dest: strings_Cut_not_found)
    with cut before False show ?thesis by simp
  qed
qed

section \<open>The inner loop\<close>

lemma loop_stop:
  "\<not> After (When (Author currentCommit)) timeSince \<Longrightarrow>
   getCommitMessages_loop author short timeSince dir currentCommit cIter m = Inr m"
  by (simp add: getCommitMessages_loop.simps)

lemma loop_EOF:
  "\<forall>c\<in>set (cur # cs). After (When (Author c)) ts \<Longrightarrow>
   getCommitMessages_loop author short ts dir cur (map Inr cs) m = Inl EOF"
proof (induction cs arbitrary: cur m author short)
  case Nil
  then show ?case by (simp add: getCommitMessages_loop.simps Next_def)
next
  case (Cons c cs)
  have step: "\<And>m' author short. getCommitMessages_loop author short ts dir c (map Inr cs) m' = Inl EOF"
    using Cons.prems by (intro Cons.IH) simp
  from Cons.prems have "After (When (Author cur)) ts" by simp
  then show ?case
    by (subst getCommitMessages_loop.simps) (simp add: Next_def step)
qed

lemma loop_Err:
  "\<forall>c\<in>set (cur # cs). After (When (Author c)) ts \<Longrightarrow>
   getCommitMessages_loop author short ts dir cur (map Inr cs @ Inl e # post) m = Inl e"
proof (induction cs arbitrary: cur m author short)
  case Nil
  then show ?case by (simp add: getCommitMessages_loop.simps Next_def)
next
  case (Cons c cs)
  have step: "\<And>m' author short. getCommitMessages_loop author short ts dir c (map Inr cs @ Inl e # post) m' = Inl e"
    using Cons.prems by (intro Cons.IH) simp
  from Cons.prems have "After (When (Author cur)) ts" by simp
  then show ?case
    by (subst getCommitMessages_loop.simps) (simp add: Next_def step)
qed

lemma loop_window:
  "\<forall>c\<in>set (cur # cs). After (When (Author c)) ts \<Longrightarrow> \<not> After (When (Author stop)) ts \<Longrightarrow>
   getCommitMessages_loop author short ts dir cur (map Inr cs @ Inr stop # post) m
     = Inr (append_all m dir (selected author short (cur # cs)))"
proof (induction cs arbitrary: cur m author short)
  case Nil
  then show ?case
    by (subst getCommitMessages_loop.simps)
       (simp add: Next_def loop_stop append_all_def selected_def shown_def strings_Cut_char)
next
  case (Cons c cs)
  have step: "\<And>m' author short. getCommitMessages_loop author short ts dir c (map Inr cs @ Inr stop # post) m'
      = Inr (append_all m' dir (selected author short (c # cs)))"
    using Cons.prems by (intro Cons.IH) simp_all
  from Cons.prems have "After (When (Author cur)) ts" by simp
  then show ?case
    by (subst getCommitMessages_loop.simps)
       (simp add: Next_def step append_all_def selected_def shown_def strings_Cut_char)
qed

lemma index_append_all: "index_msgs (append_all m dir xs) dir = index_msgs m dir @ xs"
  by (induction xs arbitrary: m) (simp_all add: append_all_def append_msgs_def index_msgs_def)

lemma append_all_other: "k \<noteq> dir \<Longrightarrow> append_all m dir xs k = m k"
  by (induction xs arbitrary: m) (simp_all add: append_all_def append_msgs_def)

lemma dom_append_all: "dom (append_all m dir xs) = (if xs = [] then dom m else insert dir (dom m))"
  by (induction xs arbitrary: m) (auto simp add: append_all_def append_msgs_def)

section \<open>One directory\<close>

lemma dir_window:
  assumes "getBaseDirectoryName Getwd dir = Inr s"
    and "repo_Head repo = Inr h"
    and "repo_Log repo h = Inr (map Inr pre @ Inr stop # post)"
    and "\<forall>c\<in>set pre. After (When (Author c)) (Add (clk n) (- since))"
    and "\<not> After (When (Author stop)) (Add (clk n) (- since))"
  shows "getCommitMessages_dir Getwd clk author short since dir repo (m, n)
           = Inr (append_all (m(s \<mapsto> [])) dir (selected author short pre), Suc n)"
proof (cases pre)
  case Nil
  with assms show ?thesis
    by (simp add: getCommitMessages_dir_def Now_def Next_def loop_stop append_all_def selected_def)
next
  case (Cons c cs)
  with assms have "getCommitMessages_loop author short (Add (clk n) (- since)) dir c
      (map Inr cs @ Inr stop # post) (m(s \<mapsto> []))
      = Inr (append_all (m(s \<mapsto> [])) dir (selected author short (c # cs)))"
    by (intro loop_window) simp_all
  with assms Cons show ?thesis
    by (simp add: getCommitMessages_dir_def Now_def Next_def)
qed

lemma dir_EOF:
  assumes "getBaseDirectoryName Getwd dir = Inr s"
    and "repo_Head repo = Inr h"
    and "repo_Log repo h = Inr (map Inr cs)"
    and "\<forall>c\<in>set cs. After (When (Author c)) (Add (clk n) (- since))"
  shows "getCommitMessages_dir Getwd clk author short since dir repo (m, n) = Inl EOF"
proof (cases cs)
  case Nil
  with assms show ?thesis
    by (simp add: getCommitMessages_dir_def Now_def Next_def)
next
  case (Cons c cs')
  with assms have "getCommitMessages_loop author short (Add (clk n) (- since)) dir c
      (map Inr cs') (m(s \<mapsto> [])) = Inl EOF"
    by (intro loop_EOF) simp_all
  with assms Cons show ?thesis
    by (simp add: getCommitMessages_dir_def Now_def Next_def)
qed

lemma dir_Err:
  assumes "getBaseDirectoryName Getwd dir = Inr s"
    and "repo_Head repo = Inr h"
    and "repo_Log repo h = Inr (map Inr cs @ Inl e # post)"
    and "\<forall>c\<in>set cs. After (When (Author c)) (Add (clk n) (- since))"
  shows "getCommitMessages_dir Getwd clk author short since dir repo (m, n) = Inl e"
proof (cases cs)
  case Nil
  with assms show ?thesis
    by (simp add: getCommitMessages_dir_def Now_def Next_def)
next
  case (Cons c cs')
  with assms have "getCommitMessages_loop author short (Add (clk n) (- since)) dir c
      (map Inr cs' @ Inl e # post) (m(s \<mapsto> [])) = Inl e"
    by (intro loop_Err) simp_all
  with assms Cons show ?thesis
    by (simp add: getCommitMessages_dir_def Now_def Next_def)
qed

lemma dir_Head_fails:
  "getBaseDirectoryName Getwd dir = Inr s \<Longrightarrow> repo_Head repo = Inl e \<Longrightarrow>
   getCommitMessages_dir Getwd clk author short since dir repo (m, n) = Inl e"
  by (simp add: getCommitMessages_dir_def)

lemma dir_Log_fails:
  "getBaseDirectoryName Getwd dir = Inr s \<Longrightarrow> repo_Head repo = Inr h \<Longrightarrow> repo_Log repo h = Inl e \<Longrightarrow>
   getCommitMessages_dir Getwd clk author short since dir repo (m, n) = Inl e"
  by (simp add: getCommitMessages_dir_def)

lemma dir_counter:
  "getCommitMessages_dir Getwd clk author short since dir repo (m, n) = Inr (m', n') \<Longrightarrow> n' = Suc n"
  by (auto simp: getCommitMessages_dir_def Now_def split: sum.splits prod.splits)

section \<open>The outer loop\<close>

lemma range_Cons:
  "getCommitMessages_range Getwd clk author short since (x # rest) st =
     (case getCommitMessages_dir Getwd clk author short since (fst x) (snd x) st of
        Inl err \<Rightarrow> Inl err
      | Inr st' \<Rightarrow> getCommitMessages_range Getwd clk author short since rest st')"
  by (cases x) simp

lemma range_append:
  "getCommitMessages_range Getwd clk author short since (xs @ ys) st =
     (case getCommitMessages_range Getwd clk author short since xs st of
        Inl err \<Rightarrow> Inl err
      | Inr st' \<Rightarrow> getCommitMessages_range Getwd clk author short since ys st')"
proof (induction xs arbitrary: st)
  case Nil
  show ?case by simp
next
  case (Cons x xs)
  show ?case
  proof (cases "getCommitMessages_dir Getwd clk author short since (fst x) (snd x) st")
    case (Inl err)
    then show ?thesis by (simp add: range_Cons)
  next
    case (Inr st')
    then show ?thesis by (simp add: range_Cons Cons.IH)
  qed
qed


lemma range_counter:
  "getCommitMessages_range Getwd clk author short since xs (m, n) = Inr (m', n') \<Longrightarrow> n' = n + length xs"
proof (induction xs arbitrary: m n)
  case Nil
  then show ?case by simp
next
  case (Cons x xs)
  show ?case
  proof (cases "getCommitMessages_dir Getwd clk author short since (fst x) (snd x) (m, n)")
    case (Inl err)
    with Cons.prems show ?thesis by (simp add: range_Cons)
  next
    case (Inr st)
    obtain m1 n1 where st: "st = (m1, n1)" by (cases st)
    from Inr st have n1: "n1 = Suc n" by (auto dest: dir_counter)
    from Cons.prems Inr st have "getCommitMessages_range Getwd clk author short since xs (m1, n1) = Inr (m', n')"
      by (simp add: range_Cons)
    from Cons.IH[OF this] n1 show ?thesis by simp
  qed
qed

lemma dir_clock:
  "clk' n = clk n \<Longrightarrow>
   getCommitMessages_dir Getwd clk' author short since dir repo (m, n)
     = getCommitMessages_dir Getwd clk author short since dir repo (m, n)"
  by (simp add: getCommitMessages_dir_def Now_def cong: sum.case_cong)

lemma range_clock:
  "\<forall>i<length xs. clk' (n + i) = clk (n + i) \<Longrightarrow>
   getCommitMessages_range Getwd clk' author short since xs (m, n)
     = getCommitMessages_range Getwd clk author short since xs (m, n)"
proof (induction xs arbitrary: m n)
  case Nil
  then show ?case by simp
next
  case (Cons x xs)
  from Cons.prems have here: "clk' n = clk n" by force
  have later: "\<forall>i<length xs. clk' (Suc n + i) = clk (Suc n + i)"
  proof (intro allI impI)
    fix i assume "i < length xs"
    with Cons.prems have "clk' (n + Suc i) = clk (n + Suc i)" by force
    then show "clk' (Suc n + i) = clk (Suc n + i)" by simp
  qed
  have same: "getCommitMessages_dir Getwd clk' author short since (fst x) (snd x) (m, n)
      = getCommitMessages_dir Getwd clk author short since (fst x) (snd x) (m, n)"
    using here by (rule dir_clock)
  show ?case
  proof (cases "getCommitMessages_dir Getwd clk author short since (fst x) (snd x) (m, n)")
    case (Inl err)
    with same show ?thesis by (simp add: range_Cons)
  next
    case (Inr st)
    obtain m1 n1 where st: "st = (m1, n1)" by (cases st)
    from Inr st have n1: "n1 = Suc n" by (auto dest: dir_counter)
    have "getCommitMessages_range Getwd clk' author short since xs (m1, Suc n)
      = getCommitMessages_range Getwd clk author short since xs (m1, Suc n)"
      using later by (rule Cons.IH)
    with Inr st n1 same show ?thesis by (simp add: range_Cons)
  qed
qed

section \<open>Evaluation and failure of a run\<close>

lemmas run_simps =
  getCommitMessages_def getCommitMessages_dir_def getBaseDirectoryName_def filepath_Base_def
  Now_def Next_def getCommitMessages_loop.simps After_def Add_def containsAuthor_def
  append_msgs_def index_msgs_def messagesFor_def keysOf_def commitAt_def repoOf_def

lemma range_prefix_fails:
  assumes "getCommitMessages_range Getwd clk author short since before st = Inr st'"
    and "getCommitMessages_dir Getwd clk author short since dir repo st' = Inl e"
  shows "getCommitMessages_range Getwd clk author short since (before @ (dir, repo) # rest) st = Inl e"
  using assms by (simp add: range_append)

section \<open>A run over a single directory\<close>

lemma single_window:
  assumes "getBaseDirectoryName Getwd dir = Inr s"
    and "repo_Head repo = Inr h"
    and "repo_Log repo h = Inr (map Inr pre @ Inr stop # post)"
    and "\<forall>c\<in>set pre. After (When (Author c)) (Add (clk n) (- since))"
    and "\<not> After (When (Author stop)) (Add (clk n) (- since))"
  shows "getCommitMessages Getwd clk n [(dir, repo)] author short since
           = Inr (append_all (Map.empty(s \<mapsto> [])) dir (selected author short pre), Suc n)"
proof -
  have "getCommitMessages_dir Getwd clk author short since dir repo (Map.empty, n)
      = Inr (append_all (Map.empty(s \<mapsto> [])) dir (selected author short pre), Suc n)"
    using assms by (rule dir_window)
  then show ?thesis by (simp add: getCommitMessages_def)
qed

lemma index_fresh: "index_msgs (append_all (Map.empty(s \<mapsto> [])) dir xs) dir = xs"
proof -
  have "index_msgs (Map.empty(s \<mapsto> [])) dir = []" by (simp add: index_msgs_def)
  then show ?thesis by (simp add: index_append_all)
qed

lemma index_reset: "index_msgs (append_all (m(dir \<mapsto> [])) dir xs) dir = xs"
proof -
  have "index_msgs (m(dir \<mapsto> [])) dir = []" by (simp add: index_msgs_def)
  then show ?thesis by (simp add: index_append_all)
qed

lemma single_window_messages:
  assumes "getBaseDirectoryName Getwd dir = Inr s"
    and "repo_Head repo = Inr h"
    and "repo_Log repo h = Inr (map Inr pre @ Inr stop # post)"
    and "\<forall>c\<in>set pre. After (When (Author c)) (Add (clk n) (- since))"
    and "\<not> After (When (Author stop)) (Add (clk n) (- since))"
  shows "messagesFor (getCommitMessages Getwd clk n [(dir, repo)] author short since) dir
           = Inr (selected author short pre)"
proof -
  have "getCommitMessages Getwd clk n [(dir, repo)] author short since
      = Inr (append_all (Map.empty(s \<mapsto> [])) dir (selected author short pre), Suc n)"
    using assms by (rule single_window)
  then show ?thesis by (simp add: messagesFor_def index_fresh)
qed

text \<open>
  Whatever the walk, a text that is returned comes from a commit of the walk whose time is
  strictly after the threshold.
\<close>

lemma append_all_Cons: "append_all m dir (x # xs) = append_all (append_msgs m dir x) dir xs"
  by (simp add: append_all_def)

lemma loop_sound:
  "getCommitMessages_loop author short ts dir cur cIter m = Inr m' \<Longrightarrow>
   \<exists>cs. m' = append_all m dir (map (shown short) cs)
      \<and> (\<forall>c\<in>set cs. (c = cur \<or> Inr c \<in> set cIter) \<and> After (When (Author c)) ts)"
proof (induction cIter arbitrary: cur m)
  case Nil
  show ?case
  proof (cases "After (When (Author cur)) ts")
    case True
    with Nil show ?thesis by (simp add: getCommitMessages_loop.simps Next_def)
  next
    case False
    with Nil have "m' = m" by (simp add: loop_stop)
    then have "m' = append_all m dir (map (shown short) [])" by (simp add: append_all_def)
    then show ?thesis by (intro exI[of _ "[]"]) simp
  qed
next
  case (Cons r rest)
  show ?case
  proof (cases "After (When (Author cur)) ts")
    case False
    with Cons.prems have "m' = m" by (simp add: loop_stop)
    then have "m' = append_all m dir (map (shown short) [])" by (simp add: append_all_def)
    then show ?thesis by (intro exI[of _ "[]"]) simp
  next
    case True
    show ?thesis
    proof (cases r)
      case (Inl e)
      with True Cons.prems show ?thesis by (simp add: getCommitMessages_loop.simps Next_def)
    next
      case (Inr nextCommit)
      show ?thesis
      proof (cases "author \<noteq> [] \<and> \<not> containsAuthor cur author")
        case skip: True
        with True Inr Cons.prems
        have "getCommitMessages_loop author short ts dir nextCommit rest m = Inr m'"
          by (subst (asm) getCommitMessages_loop.simps) (simp add: Next_def)
        from Cons.IH[OF this] obtain cs where
          "m' = append_all m dir (map (shown short) cs)"
          "\<forall>c\<in>set cs. (c = nextCommit \<or> Inr c \<in> set rest) \<and> After (When (Author c)) ts"
          by blast
        with Inr show ?thesis by (intro exI[of _ cs]) auto
      next
        case keep: False
        with True Inr Cons.prems
        have "getCommitMessages_loop author short ts dir nextCommit rest
                (append_msgs m dir (shown short cur)) = Inr m'"
          by (subst (asm) getCommitMessages_loop.simps)
             (auto simp: Next_def shown_def strings_Cut_char split: if_splits)
        from Cons.IH[OF this] obtain cs where
          "m' = append_all (append_msgs m dir (shown short cur)) dir (map (shown short) cs)"
          "\<forall>c\<in>set cs. (c = nextCommit \<or> Inr c \<in> set rest) \<and> After (When (Author c)) ts"
          by blast
        with Inr True show ?thesis
          by (intro exI[of _ "cur # cs"]) (auto simp: append_all_Cons)
      qed
    qed
  qed
qed

lemma single_sound:
  assumes "repo_Head repo = Inr h"
    and "repo_Log repo h = Inr walk"
    and "messagesFor (getCommitMessages Getwd clk n [(dir, repo)] author short since) dir = Inr out"
  shows "\<exists>cs. out = map (shown short) cs
      \<and> (\<forall>c\<in>set cs. Inr c \<in> set walk \<and> After (When (Author c)) (Add (clk n) (- since)))"
proof -
  from assms(3) obtain m' k where run: "getCommitMessages Getwd clk n [(dir, repo)] author short since = Inr (m', k)"
    and out: "out = index_msgs m' dir"
    by (auto simp: messagesFor_def split: sum.splits)
  from run assms(1,2) obtain s cur cIter where
    base: "getBaseDirectoryName Getwd dir = Inr s" and
    walk: "walk = Inr cur # cIter" and
    loop: "getCommitMessages_loop author short (Add (clk n) (- since)) dir cur cIter (Map.empty(s \<mapsto> [])) = Inr m'"
    by (auto simp: getCommitMessages_def getCommitMessages_dir_def Now_def Next_def
             split: sum.splits list.splits)
  from loop_sound[OF loop] obtain cs where
    m': "m' = append_all (Map.empty(s \<mapsto> [])) dir (map (shown short) cs)" and
    cs: "\<forall>c\<in>set cs. (c = cur \<or> Inr c \<in> set cIter) \<and> After (When (Author c)) (Add (clk n) (- since))"
    by blast
  from out m' have "out = map (shown short) cs" by (simp add: index_fresh)
  with cs walk show ?thesis by (intro exI[of _ cs]) auto
qed

section \<open>Runs over several directories\<close>

lemma getCommitMessages_counter:
  "getCommitMessages Getwd clk n dirToRepo author short since = Inr (m, k) \<Longrightarrow> k = n + length dirToRepo"
  unfolding getCommitMessages_def by (rule range_counter)

lemma getCommitMessages_snoc:
  assumes "getCommitMessages Getwd clk n before author short since = Inr st"
  shows "getCommitMessages Getwd clk n (before @ [(dir, repo)]) author short since
           = getCommitMessages_dir Getwd clk author short since dir repo st"
  using assms by (simp add: getCommitMessages_def range_append split: sum.splits)

lemma getRepositories_range_fails:
  "\<forall>x\<in>set ds. \<exists>r. PlainOpen x = Inr r \<Longrightarrow> PlainOpen d = Inl e \<Longrightarrow>
   getRepositories_range PlainOpen (ds @ d # rest) repos = Inl e"
proof (induction ds arbitrary: repos)
  case Nil
  then show ?case by (simp add: openGitDir_def)
next
  case (Cons x ds)
  from Cons.prems obtain r where "PlainOpen x = Inr r" by auto
  moreover have "getRepositories_range PlainOpen (ds @ d # rest) (repos @ [r]) = Inl e"
    using Cons.prems by (intro Cons.IH) simp_all
  ultimately show ?case by (simp add: openGitDir_def)
qed

lemma getRepositories_range_any_fails:
  "x \<in> set dirs \<Longrightarrow> PlainOpen x = Inl e \<Longrightarrow> \<exists>err. getRepositories_range PlainOpen dirs repos = Inl err"
proof (induction dirs arbitrary: repos)
  case Nil
  then show ?case by simp
next
  case (Cons a dirs)
  show ?case
  proof (cases "PlainOpen a")
    case (Inl err)
    then show ?thesis by (simp add: openGitDir_def)
  next
    case (Inr r)
    with Cons.prems have "x \<in> set dirs" by auto
    from Cons.IH [OF this Cons.prems(2)] Inr show ?thesis by (simp add: openGitDir_def)
  qed
qed

lemma dir_fails:
  assumes "getBaseDirectoryName Getwd dir = Inr s"
    and "repo_Head repo = Inl e
       \<or> (\<exists>h. repo_Head repo = Inr h \<and> repo_Log repo h = Inl e)
       \<or> (\<exists>h cs post. repo_Head repo = Inr h \<and> repo_Log repo h = Inr (map Inr cs @ Inl e # post)
             \<and> (\<forall>c\<in>set cs. After (When (Author c)) (Add (clk k) (- since))))
       \<or> (\<exists>h cs. repo_Head repo = Inr h \<and> repo_Log repo h = Inr (map Inr cs) \<and> e = EOF
             \<and> (\<forall>c\<in>set cs. After (When (Author c)) (Add (clk k) (- since))))"
  shows "getCommitMessages_dir Getwd clk author short since dir repo (m, k) = Inl e"
  using assms(2)
proof (elim disjE exE conjE)
  assume "repo_Head repo = Inl e"
  with assms(1) show ?thesis by (rule dir_Head_fails)
next
  fix h assume "repo_Head repo = Inr h" "repo_Log repo h = Inl e"
  with assms(1) show ?thesis by (rule dir_Log_fails)
next
  fix h cs post
  assume "repo_Head repo = Inr h" "repo_Log repo h = Inr (map Inr cs @ Inl e # post)"
    "\<forall>c\<in>set cs. After (When (Author c)) (Add (clk k) (- since))"
  with assms(1) show ?thesis by (rule dir_Err)
next
  fix h cs
  assume "repo_Head repo = Inr h" "repo_Log repo h = Inr (map Inr cs)" "e = EOF"
    "\<forall>c\<in>set cs. After (When (Author c)) (Add (clk k) (- since))"
  with assms(1) show ?thesis by (simp add: dir_EOF)
qed

text \<open>
  The base name of every directory of a run that succeeds is a key of the map returned.
\<close>

lemma loop_dom:
  "getCommitMessages_loop author short ts dir cur cIter m = Inr m' \<Longrightarrow> dom m \<subseteq> dom m'"
proof -
  assume "getCommitMessages_loop author short ts dir cur cIter m = Inr m'"
  then obtain cs where "m' = append_all m dir (map (shown short) cs)"
    by (blast dest: loop_sound)
  then show ?thesis by (auto simp: dom_append_all)
qed

lemma dir_keys:
  assumes "getCommitMessages_dir Getwd clk author short since dir repo (m, n) = Inr (m', n')"
  shows "\<exists>s. getBaseDirectoryName Getwd dir = Inr s \<and> s \<in> dom m' \<and> dom m \<subseteq> dom m'"
proof -
  from assms obtain s cur cIter where
    base: "getBaseDirectoryName Getwd dir = Inr s" and
    loop: "getCommitMessages_loop author short (Add (clk n) (- since)) dir cur cIter (m(s \<mapsto> [])) = Inr m'"
    by (auto simp: getCommitMessages_dir_def Now_def split: sum.splits prod.splits)
  from loop have "dom (m(s \<mapsto> [])) \<subseteq> dom m'" by (rule loop_dom)
  with base show ?thesis by auto
qed

lemma range_keys:
  "getCommitMessages_range Getwd clk author short since xs (m, n) = Inr (m', n') \<Longrightarrow>
   dom m \<subseteq> dom m' \<and> (\<forall>(dir, repo)\<in>set xs. \<exists>s. getBaseDirectoryName Getwd dir = Inr s \<and> s \<in> dom m')"
proof (induction xs arbitrary: m n)
  case Nil
  then show ?case by simp
next
  case (Cons x xs)
  show ?case
  proof (cases "getCommitMessages_dir Getwd clk author short since (fst x) (snd x) (m, n)")
    case (Inl err)
    with Cons.prems show ?thesis by (simp add: range_Cons)
  next
    case (Inr st)
    obtain m1 n1 where st: "st = (m1, n1)" by (cases st)
    from Inr st obtain s where s: "getBaseDirectoryName Getwd (fst x) = Inr s" "s \<in> dom m1" "dom m \<subseteq> dom m1"
      using dir_keys by blast
    from Cons.prems Inr st have "getCommitMessages_range Getwd clk author short since xs (m1, n1) = Inr (m', n')"
      by (simp add: range_Cons)
    from Cons.IH[OF this] s show ?thesis by (cases x) auto
  qed
qed

lemma requested_base_names_are_keys:
  assumes "getCommitMessages Getwd clk n dirToRepo author short since = Inr (m, k)"
    and "(dir, repo) \<in> set dirToRepo"
  shows "\<exists>s. getBaseDirectoryName Getwd dir = Inr s \<and> s \<in> dom m"
  using range_keys [OF assms(1) [unfolded getCommitMessages_def]] assms(2) by auto

section \<open>Histories that leave the window\<close>

text \<open>
  When the walk reaches a commit that is not strictly after the threshold, the run over the
  directory returns. With no author filter and times that do not increase along the walk, the
  number of texts returned is the number of commits of the walk strictly after the threshold;
  with a filter that no commit inside the window matches, the sequence returned is empty.
\<close>

lemma window_is_prefix:
  assumes "sorted_wrt (\<lambda>a b. When (Author b) \<le> When (Author a)) (pre @ stop # post)"
    and "\<forall>c\<in>set pre. After (When (Author c)) ts"
    and "\<not> After (When (Author stop)) ts"
  shows "filter (\<lambda>c. After (When (Author c)) ts) (pre @ stop # post) = pre"
proof -
  from assms(1) have "\<forall>c\<in>set post. When (Author c) \<le> When (Author stop)"
    by (simp add: sorted_wrt_append)
  with assms(3) have "\<forall>c\<in>set post. \<not> After (When (Author c)) ts"
    by (auto simp: After_def)
  with assms(2,3) show ?thesis by simp
qed

lemma count_in_window_when_walk_leaves_window:
  assumes "getBaseDirectoryName Getwd dir = Inr s"
    and "repo_Head repo = Inr h"
    and "repo_Log repo h = Inr (map Inr (pre @ stop # post))"
    and "sorted_wrt (\<lambda>a b. When (Author b) \<le> When (Author a)) (pre @ stop # post)"
    and "\<forall>c\<in>set pre. After (When (Author c)) (Add (clk n) (- since))"
    and "\<not> After (When (Author stop)) (Add (clk n) (- since))"
  shows "\<exists>out. messagesFor (getCommitMessages Getwd clk n [(dir, repo)] [] short since) dir = Inr out
      \<and> length out = length (filter (\<lambda>c. After (When (Author c)) (Add (clk n) (- since))) (pre @ stop # post))"
proof -
  have log: "repo_Log repo h = Inr (map Inr pre @ Inr stop # map Inr post)"
    using assms(3) by simp
  have "messagesFor (getCommitMessages Getwd clk n [(dir, repo)] [] short since) dir
      = Inr (selected [] short pre)"
    using assms(1,2) log assms(5,6) by (rule single_window_messages)
  moreover have "length (selected [] short pre) = length pre" by (simp add: selected_def)
  ultimately show ?thesis using window_is_prefix [OF assms(4,5,6)] by simp
qed

lemma unmatched_filter_when_walk_leaves_window:
  assumes "getBaseDirectoryName Getwd dir = Inr s"
    and "repo_Head repo = Inr h"
    and "repo_Log repo h = Inr (map Inr pre @ Inr stop # post)"
    and "\<forall>c\<in>set pre. After (When (Author c)) (Add (clk n) (- since))"
    and "\<not> After (When (Author stop)) (Add (clk n) (- since))"
    and "author \<noteq> []"
    and "\<forall>c\<in>set pre. \<not> containsAuthor c author"
  shows "messagesFor (getCommitMessages Getwd clk n [(dir, repo)] author short since) dir = Inr []"
proof -
  have "messagesFor (getCommitMessages Getwd clk n [(dir, repo)] author short since) dir
      = Inr (selected author short pre)"
    using assms(1-5) by (rule single_window_messages)
  moreover from assms(6,7) have "selected author short pre = []"
    by (simp add: selected_def)
  ultimately show ?thesis by simp
qed

section \<open>The properties of the specification\<close>

text \<open>
  C1. The specification states that for a non-empty walk with times that do not increase
  and no author filter, the run succeeds and returns as many texts as there are commits
  strictly after the threshold, also when every commit is inside the window. The code does
  so when the walk reaches a commit outside the window, and not otherwise: for the history
  of a single commit made ten units before the reading of the clock, with a lookback of sixty,
  the loop fetches the successor before it decides about the commit, the iterator is
  exhausted, and the run returns the end-of-history error instead of the one text.
\<close>

theorem C1_all_in_window_history_fails:
  "getCommitMessages (Inr ''/home/dev'') (\<lambda>k. 1000) 0
     [(''today'', repoOf [Inr (commitAt ''testUser'' 990 ''TEST'')])] '''' True 60 = Inl EOF"
  by (simp add: run_simps)

text \<open>
  C2. The specification states that the map returned has exactly one entry for a requested
  directory, under its base name, and the selected messages are stored under that key. The
  code stores the
  empty slice under the base name and appends under the path as given: for the path
  \<^verbatim>\<open>work/api\<close> with one commit inside the window the map has two keys, the base name with
  the empty sequence and the path with the message.
\<close>

theorem C2_messages_stored_under_path:
  "keysOf (getCommitMessages (Inr ''/home/dev'') (\<lambda>k. 1000) 0
     [(''work/api'', repoOf [Inr (commitAt ''Ann'' 990 ''fix bug''), Inr (commitAt ''Ann'' 100 ''initial commit'')])]
     '''' False 50) = Inr {''api'', ''work/api''}
   \<and> messagesFor (getCommitMessages (Inr ''/home/dev'') (\<lambda>k. 1000) 0
     [(''work/api'', repoOf [Inr (commitAt ''Ann'' 990 ''fix bug''), Inr (commitAt ''Ann'' 100 ''initial commit'')])]
     '''' False 50) ''api'' = Inr []
   \<and> messagesFor (getCommitMessages (Inr ''/home/dev'') (\<lambda>k. 1000) 0
     [(''work/api'', repoOf [Inr (commitAt ''Ann'' 990 ''fix bug''), Inr (commitAt ''Ann'' 100 ''initial commit'')])]
     '''' False 50) ''work/api'' = Inr [''fix bug'']"
  by (simp add: run_simps insert_commute)

text \<open>
  C3. As soon as the walk reaches a commit whose time is not strictly after the threshold,
  the loop stops. For a walk that consists of commits \<open>pre\<close> inside the window, then such a
  commit \<open>stop\<close>, then anything (\<open>post\<close>: commits or iterator errors), the sequence returned
  is made of the commits of \<open>pre\<close> alone, so \<open>stop\<close> is not included; and the whole result
  is the same for every other choice of the stopping commit and of what follows it, so
  neither the author and message of \<open>stop\<close> nor anything after it can change the output.
\<close>

theorem C3_stops_at_first_commit_outside_window:
  assumes "getBaseDirectoryName Getwd dir = Inr s"
    and "repo_Head repo = Inr h"
    and "repo_Log repo h = Inr (map Inr pre @ Inr stop # post)"
    and "repo_Head repo' = Inr h'"
    and "repo_Log repo' h' = Inr (map Inr pre @ Inr stop' # post')"
    and "\<forall>c\<in>set pre. After (When (Author c)) (Add (clk n) (- since))"
    and "\<not> After (When (Author stop)) (Add (clk n) (- since))"
    and "\<not> After (When (Author stop')) (Add (clk n) (- since))"
  shows "messagesFor (getCommitMessages Getwd clk n [(dir, repo)] author short since) dir
           = Inr (selected author short pre)
       \<and> getCommitMessages Getwd clk n [(dir, repo')] author short since
           = getCommitMessages Getwd clk n [(dir, repo)] author short since"
proof -
  have "getCommitMessages Getwd clk n [(dir, repo)] author short since
      = Inr (append_all (Map.empty(s \<mapsto> [])) dir (selected author short pre), Suc n)"
    using assms(1,2,3,6,7) by (rule single_window)
  moreover have "getCommitMessages Getwd clk n [(dir, repo')] author short since
      = Inr (append_all (Map.empty(s \<mapsto> [])) dir (selected author short pre), Suc n)"
    using assms(1,4,5,6,8) by (rule single_window)
  ultimately show ?thesis by (simp add: messagesFor_def index_fresh)
qed

text \<open>
  The history of three commits at \<open>T\<close>, \<open>T\<close> minus one hour and \<open>T\<close> minus twenty-five hours,
  with a lookback of two hours (the hour taken as 3600 units): the first two messages are
  returned, and replacing the third commit and what follows it changes nothing.
\<close>

theorem C3_witness:
  "messagesFor (getCommitMessages (Inr ''/home/dev'') (\<lambda>k. 360000) 0
      [(''proj'', repoOf [Inr (commitAt ''Ann'' 360000 ''third change''),
                          Inr (commitAt ''Ann'' 356400 ''second change''),
                          Inr (commitAt ''Ann'' 270000 ''first change'')])]
      '''' False 7200) ''proj'' = Inr [''third change'', ''second change'']
   \<and> getCommitMessages (Inr ''/home/dev'') (\<lambda>k. 360000) 0
      [(''proj'', repoOf [Inr (commitAt ''Ann'' 360000 ''third change''),
                          Inr (commitAt ''Ann'' 356400 ''second change''),
                          Inr (commitAt ''Bob'' 5 ''unrelated''), Inl (Err ''object not found'')])]
      '''' False 7200
     = getCommitMessages (Inr ''/home/dev'') (\<lambda>k. 360000) 0
      [(''proj'', repoOf [Inr (commitAt ''Ann'' 360000 ''third change''),
                          Inr (commitAt ''Ann'' 356400 ''second change''),
                          Inr (commitAt ''Ann'' 270000 ''first change'')])]
      '''' False 7200"
proof -
  let ?pre = "[commitAt ''Ann'' 360000 ''third change'', commitAt ''Ann'' 356400 ''second change'']"
  let ?repo = "repoOf [Inr (commitAt ''Ann'' 360000 ''third change''),
                          Inr (commitAt ''Ann'' 356400 ''second change''),
                          Inr (commitAt ''Ann'' 270000 ''first change'')]"
  let ?repo' = "repoOf [Inr (commitAt ''Ann'' 360000 ''third change''),
                          Inr (commitAt ''Ann'' 356400 ''second change''),
                          Inr (commitAt ''Bob'' 5 ''unrelated''), Inl (Err ''object not found'')]"
  have base: "getBaseDirectoryName (Inr ''/home/dev'') ''proj'' = Inr ''proj''"
    by (simp add: getBaseDirectoryName_def filepath_Base_def)
  have head: "repo_Head ?repo = Inr ''HEAD''" and head': "repo_Head ?repo' = Inr ''HEAD''"
    by (simp_all add: repoOf_def)
  have log: "repo_Log ?repo ''HEAD'' = Inr (map Inr ?pre @ Inr (commitAt ''Ann'' 270000 ''first change'') # [])"
    by (simp add: repoOf_def)
  have log': "repo_Log ?repo' ''HEAD''
      = Inr (map Inr ?pre @ Inr (commitAt ''Bob'' 5 ''unrelated'') # [Inl (Err ''object not found'')])"
    by (simp add: repoOf_def)
  have window: "\<forall>c\<in>set ?pre. After (When (Author c)) (Add ((\<lambda>k. 360000) (0::nat)) (- 7200))"
    by (simp add: After_def Add_def commitAt_def)
  have stop: "\<not> After (When (Author (commitAt ''Ann'' 270000 ''first change''))) (Add ((\<lambda>k. 360000) (0::nat)) (- 7200))"
    by (simp add: After_def Add_def commitAt_def)
  have stop': "\<not> After (When (Author (commitAt ''Bob'' 5 ''unrelated''))) (Add ((\<lambda>k. 360000) (0::nat)) (- 7200))"
    by (simp add: After_def Add_def commitAt_def)
  from C3_stops_at_first_commit_outside_window
    [where clk = "\<lambda>k. 360000" and n = 0 and author = "''''" and short = False,
     OF base head log head' log' window stop stop']
  show ?thesis by (simp add: selected_def shown_def commitAt_def)
qed

text \<open>
  C4. The specification states that an author filter that no commit inside the window matches gives the empty
  sequence and no error, for every walk. The code does so only when the walk reaches a
  commit outside the window; for the history of a single commit inside the window the run
  returns the end-of-history error, by the same early fetch of the successor as in C1.
\<close>

theorem C4_unmatched_filter_fails:
  "getCommitMessages (Inr ''/home/dev'') (\<lambda>k. 1000) 0
     [(''today'', repoOf [Inr (commitAt ''testUser'' 990 ''TEST'')])] ''INVALID_COMMIT_AUTHOR'' True 60 = Inl EOF"
  by (simp add: run_simps)



text \<open>
  C6, as stated, fails. With a lookback of zero the threshold is the reading of the clock,
  and a head commit dated one unit after that reading is strictly after the threshold: its
  message is returned, so the sequence is not empty for every history.
\<close>

theorem C6_future_dated_head_is_selected:
  "messagesFor (getCommitMessages (Inr ''/home/dev'') (\<lambda>k. 1000) 0
      [(''today'', repoOf [Inr (commitAt ''testUser'' 1001 ''TEST''),
                           Inr (commitAt ''testUser'' 100 ''initial commit'')])]
      '''' True 0) ''today'' = Inr [''TEST'']"
  by (simp add: run_simps)

text \<open>
  C6, amended. The boundary of the window is exclusive: every text returned comes from a
  commit of the walk whose time is strictly after the threshold. So with a lookback of zero
  the sequence returned is empty for every history whose head commit is not dated after the
  reading of the clock, also when the time of the head commit equals that reading.
\<close>

theorem C6_exclusive_boundary:
  assumes "getBaseDirectoryName Getwd dir = Inr s"
    and "repo_Head repo = Inr h"
    and "repo_Log repo h = Inr (Inr head # rest)"
  shows "(messagesFor (getCommitMessages Getwd clk n [(dir, repo)] author short since) dir = Inr out \<longrightarrow>
            (\<exists>cs. out = map (shown short) cs
               \<and> (\<forall>c\<in>set cs. Inr c \<in> set (Inr head # rest)
                      \<and> After (When (Author c)) (Add (clk n) (- since)))))
       \<and> (When (Author head) \<le> clk n \<longrightarrow>
            messagesFor (getCommitMessages Getwd clk n [(dir, repo)] author short 0) dir = Inr [])"
proof (intro conjI impI)
  assume "messagesFor (getCommitMessages Getwd clk n [(dir, repo)] author short since) dir = Inr out"
  with assms(2,3) show "\<exists>cs. out = map (shown short) cs
               \<and> (\<forall>c\<in>set cs. Inr c \<in> set (Inr head # rest)
                      \<and> After (When (Author c)) (Add (clk n) (- since)))"
    by (rule single_sound)
next
  assume "When (Author head) \<le> clk n"
  then have stop: "\<not> After (When (Author head)) (Add (clk n) (- 0))"
    by (simp add: After_def Add_def)
  have log: "repo_Log repo h = Inr (map Inr [] @ Inr head # rest)"
    using assms(3) by simp
  have window: "\<forall>c\<in>set []. After (When (Author c)) (Add (clk n) (- 0))" by simp
  have "messagesFor (getCommitMessages Getwd clk n [(dir, repo)] author short 0) dir
      = Inr (selected author short [])"
    using assms(1,2) log window stop by (rule single_window_messages)
  then show "messagesFor (getCommitMessages Getwd clk n [(dir, repo)] author short 0) dir = Inr []"
    by (simp add: selected_def)
qed

theorem C6_witness:
  "messagesFor (getCommitMessages (Inr ''/home/dev'') (\<lambda>k. 1000) 0
      [(''today'', repoOf [Inr (commitAt ''testUser'' 1000 ''TEST''),
                           Inr (commitAt ''testUser'' 100 ''initial commit'')])]
      '''' True 0) ''today'' = Inr []"
proof -
  let ?repo = "repoOf [Inr (commitAt ''testUser'' 1000 ''TEST''), Inr (commitAt ''testUser'' 100 ''initial commit'')]"
  have base: "getBaseDirectoryName (Inr ''/home/dev'') ''today'' = Inr ''today''"
    by (simp add: getBaseDirectoryName_def filepath_Base_def)
  have head: "repo_Head ?repo = Inr ''HEAD''" by (simp add: repoOf_def)
  have log: "repo_Log ?repo ''HEAD''
      = Inr (Inr (commitAt ''testUser'' 1000 ''TEST'') # [Inr (commitAt ''testUser'' 100 ''initial commit'')])"
    by (simp add: repoOf_def)
  have "When (Author (commitAt ''testUser'' 1000 ''TEST'')) \<le> (1000::int)"
    by (simp add: commitAt_def)
  with C6_exclusive_boundary
    [where clk = "\<lambda>k. 1000" and n = 0 and author = "''''" and short = True, OF base head log]
  show ?thesis by simp
qed

text \<open>
  C7. For a walk that has the commits \<open>pre\<close> inside the window and then a commit outside it:
  with \<open>short\<close> every text returned is the part of the commit's message before its first line
  feed, without \<open>short\<close> it is the whole message, line feeds included. The cut that the
  code calls keeps a text without a line feed as it is, and of a line followed by a line feed
  and a body it keeps the line.
\<close>

theorem C7_short_keeps_first_line:
  assumes "getBaseDirectoryName Getwd dir = Inr s"
    and "repo_Head repo = Inr h"
    and "repo_Log repo h = Inr (map Inr pre @ Inr stop # post)"
    and "\<forall>c\<in>set pre. After (When (Author c)) (Add (clk n) (- since))"
    and "\<not> After (When (Author stop)) (Add (clk n) (- since))"
  shows "messagesFor (getCommitMessages Getwd clk n [(dir, repo)] author short since) dir
           = Inr (map (\<lambda>c. if short then takeWhile (\<lambda>x. x \<noteq> CHR 0x0A) (Message c) else Message c)
                    (filter (\<lambda>c. author = [] \<or> containsAuthor c author) pre))
       \<and> (CHR 0x0A \<notin> set text \<longrightarrow> fst (strings_Cut text [CHR 0x0A]) = text)
       \<and> (CHR 0x0A \<notin> set line \<longrightarrow> fst (strings_Cut (line @ CHR 0x0A # body) [CHR 0x0A]) = line)"
proof -
  have "messagesFor (getCommitMessages Getwd clk n [(dir, repo)] author short since) dir
      = Inr (selected author short pre)"
    using assms by (rule single_window_messages)
  moreover have "CHR 0x0A \<notin> set text \<longrightarrow> takeWhile (\<lambda>x. x \<noteq> CHR 0x0A) text = text"
    by (auto simp: takeWhile_eq_all_conv)
  moreover have "CHR 0x0A \<notin> set line \<longrightarrow> takeWhile (\<lambda>x. x \<noteq> CHR 0x0A) (line @ CHR 0x0A # body) = line"
    by (induction line) simp_all
  ultimately show ?thesis
    unfolding strings_Cut_char selected_def shown_def by (intro conjI) simp_all
qed

theorem C7_witness:
  "messagesFor (getCommitMessages (Inr ''/home/dev'') (\<lambda>k. 1000) 0
      [(''proj'', repoOf [Inr (commitAt ''Ann'' 990 ''fix bug''),
                          Inr (commitAt ''Ann'' 980 (''A'' @ [CHR 0x0A] @ ''B'')),
                          Inr (commitAt ''Ann'' 100 ''initial commit'')])]
      '''' True 50) ''proj'' = Inr [''fix bug'', ''A'']
   \<and> messagesFor (getCommitMessages (Inr ''/home/dev'') (\<lambda>k. 1000) 0
      [(''proj'', repoOf [Inr (commitAt ''Ann'' 990 ''fix bug''),
                          Inr (commitAt ''Ann'' 980 (''A'' @ [CHR 0x0A] @ ''B'')),
                          Inr (commitAt ''Ann'' 100 ''initial commit'')])]
      '''' False 50) ''proj'' = Inr [''fix bug'', ''A'' @ [CHR 0x0A] @ ''B'']"
proof -
  let ?pre = "[commitAt ''Ann'' 990 ''fix bug'', commitAt ''Ann'' 980 (''A'' @ [CHR 0x0A] @ ''B'')]"
  let ?repo = "repoOf [Inr (commitAt ''Ann'' 990 ''fix bug''),
                          Inr (commitAt ''Ann'' 980 (''A'' @ [CHR 0x0A] @ ''B'')),
                          Inr (commitAt ''Ann'' 100 ''initial commit'')]"
  have base: "getBaseDirectoryName (Inr ''/home/dev'') ''proj'' = Inr ''proj''"
    by (simp add: getBaseDirectoryName_def filepath_Base_def)
  have head: "repo_Head ?repo = Inr ''HEAD''" by (simp add: repoOf_def)
  have log: "repo_Log ?repo ''HEAD'' = Inr (map Inr ?pre @ Inr (commitAt ''Ann'' 100 ''initial commit'') # [])"
    by (simp add: repoOf_def)
  have window: "\<forall>c\<in>set ?pre. After (When (Author c)) (Add ((\<lambda>k. 1000) (0::nat)) (- 50))"
    by (simp add: After_def Add_def commitAt_def)
  have stop: "\<not> After (When (Author (commitAt ''Ann'' 100 ''initial commit''))) (Add ((\<lambda>k. 1000) (0::nat)) (- 50))"
    by (simp add: After_def Add_def commitAt_def)
  from C7_short_keeps_first_line
    [where clk = "\<lambda>k. 1000" and n = 0 and author = "''''" and short = True, OF base head log window stop]
    C7_short_keeps_first_line
    [where clk = "\<lambda>k. 1000" and n = 0 and author = "''''" and short = False, OF base head log window stop]
  show ?thesis by (simp add: commitAt_def)
qed

text \<open>
  C8, as stated, fails. The clock is read inside the loop over the directories. Two
  directories with the same history, a lookback of 100, and a clock that shows 1000 at the
  first reading and 1010 at the second: the commit made at 905 is inside the window of the
  first directory (threshold 900) and outside the window of the second (threshold 910).
\<close>

theorem C8_directories_get_different_thresholds:
  "messagesFor (getCommitMessages (Inr ''/home/dev'') (\<lambda>k. 1000 + 10 * int k) 0
      [(''a'', repoOf [Inr (commitAt ''Ann'' 905 ''fix bug''), Inr (commitAt ''Ann'' 100 ''initial commit'')]),
       (''b'', repoOf [Inr (commitAt ''Ann'' 905 ''fix bug''), Inr (commitAt ''Ann'' 100 ''initial commit'')])]
      '''' False 100) ''a'' = Inr [''fix bug'']
   \<and> messagesFor (getCommitMessages (Inr ''/home/dev'') (\<lambda>k. 1000 + 10 * int k) 0
      [(''a'', repoOf [Inr (commitAt ''Ann'' 905 ''fix bug''), Inr (commitAt ''Ann'' 100 ''initial commit'')]),
       (''b'', repoOf [Inr (commitAt ''Ann'' 905 ''fix bug''), Inr (commitAt ''Ann'' 100 ''initial commit'')])]
      '''' False 100) ''b'' = Inr []"
  by (simp add: run_simps)

text \<open>
  C8, amended. The threshold is computed once for each directory: the clock is read exactly
  once per directory, before the first commit of that directory is fetched, and every commit
  of the directory is compared against that reading minus the lookback. The directory
  visited after \<open>length before\<close> others is compared against reading number
  \<open>n + length before\<close>, the run has then made \<open>length before + 1\<close> readings, and it depends
  on the clock through these readings only.
\<close>

theorem C8_one_clock_reading_per_directory:
  assumes "getCommitMessages Getwd clk n before author short since = Inr (m, k)"
    and "getBaseDirectoryName Getwd dir = Inr s"
    and "repo_Head repo = Inr h"
    and "repo_Log repo h = Inr (map Inr pre @ Inr stop # post)"
    and "\<forall>c\<in>set pre. After (When (Author c)) (Add (clk (n + length before)) (- since))"
    and "\<not> After (When (Author stop)) (Add (clk (n + length before)) (- since))"
    and "\<forall>i<length before + 1. clk' (n + i) = clk (n + i)"
  shows "getCommitMessages Getwd clk n (before @ [(dir, repo)]) author short since
           = Inr (append_all (m(s \<mapsto> [])) dir (selected author short pre), n + length before + 1)
       \<and> getCommitMessages Getwd clk' n (before @ [(dir, repo)]) author short since
           = getCommitMessages Getwd clk n (before @ [(dir, repo)]) author short since"
proof -
  from assms(1) have k: "k = n + length before" by (rule getCommitMessages_counter)
  have "getCommitMessages_dir Getwd clk author short since dir repo (m, k)
      = Inr (append_all (m(s \<mapsto> [])) dir (selected author short pre), Suc k)"
    using assms(2-6) unfolding k by (rule dir_window)
  with assms(1) k have first:
    "getCommitMessages Getwd clk n (before @ [(dir, repo)]) author short since
      = Inr (append_all (m(s \<mapsto> [])) dir (selected author short pre), n + length before + 1)"
    by (simp add: getCommitMessages_snoc)
  have "\<forall>i<length (before @ [(dir, repo)]). clk' (n + i) = clk (n + i)"
    using assms(7) by simp
  then have "getCommitMessages_range Getwd clk' author short since (before @ [(dir, repo)]) (Map.empty, n)
      = getCommitMessages_range Getwd clk author short since (before @ [(dir, repo)]) (Map.empty, n)"
    by (rule range_clock)
  with first show ?thesis by (simp add: getCommitMessages_def)
qed

theorem C8_witness:
  "messagesFor (getCommitMessages (Inr ''/home/dev'') (\<lambda>k. if k < 2 then 1000 + 10 * int k else 0) 0
      ([(''a'', repoOf [Inr (commitAt ''Ann'' 905 ''fix bug''), Inr (commitAt ''Ann'' 100 ''initial commit'')])]
       @ [(''b'', repoOf [Inr (commitAt ''Ann'' 915 ''add feature''), Inr (commitAt ''Ann'' 905 ''fix bug''),
                          Inr (commitAt ''Ann'' 100 ''initial commit'')])])
      '''' False 100) ''b'' = Inr [''add feature'']
   \<and> getCommitMessages (Inr ''/home/dev'') (\<lambda>k. if k < 2 then 1000 + 10 * int k else 0) 0
      ([(''a'', repoOf [Inr (commitAt ''Ann'' 905 ''fix bug''), Inr (commitAt ''Ann'' 100 ''initial commit'')])]
       @ [(''b'', repoOf [Inr (commitAt ''Ann'' 915 ''add feature''), Inr (commitAt ''Ann'' 905 ''fix bug''),
                          Inr (commitAt ''Ann'' 100 ''initial commit'')])])
      '''' False 100
     = getCommitMessages (Inr ''/home/dev'') (\<lambda>k. 1000 + 10 * int k) 0
      ([(''a'', repoOf [Inr (commitAt ''Ann'' 905 ''fix bug''), Inr (commitAt ''Ann'' 100 ''initial commit'')])]
       @ [(''b'', repoOf [Inr (commitAt ''Ann'' 915 ''add feature''), Inr (commitAt ''Ann'' 905 ''fix bug''),
                          Inr (commitAt ''Ann'' 100 ''initial commit'')])])
      '''' False 100"
proof -
  let ?clk = "\<lambda>k. 1000 + 10 * int k"
  let ?clk' = "\<lambda>k. if k < 2 then 1000 + 10 * int k else 0"
  let ?a = "repoOf [Inr (commitAt ''Ann'' 905 ''fix bug''), Inr (commitAt ''Ann'' 100 ''initial commit'')]"
  let ?b = "repoOf [Inr (commitAt ''Ann'' 915 ''add feature''), Inr (commitAt ''Ann'' 905 ''fix bug''),
                          Inr (commitAt ''Ann'' 100 ''initial commit'')]"
  obtain m where before: "getCommitMessages (Inr ''/home/dev'') ?clk 0 [(''a'', ?a)] '''' False 100 = Inr (m, 1)"
    by (simp add: run_simps)
  have base: "getBaseDirectoryName (Inr ''/home/dev'') ''b'' = Inr ''b''"
    by (simp add: getBaseDirectoryName_def filepath_Base_def)
  have head: "repo_Head ?b = Inr ''HEAD''" by (simp add: repoOf_def)
  have log: "repo_Log ?b ''HEAD'' = Inr (map Inr [commitAt ''Ann'' 915 ''add feature'']
      @ Inr (commitAt ''Ann'' 905 ''fix bug'') # [Inr (commitAt ''Ann'' 100 ''initial commit'')])"
    by (simp add: repoOf_def)
  have window: "\<forall>c\<in>set [commitAt ''Ann'' 915 ''add feature''].
      After (When (Author c)) (Add (?clk (0 + length [(''a'', ?a)])) (- 100))"
    by (simp add: After_def Add_def commitAt_def)
  have stop: "\<not> After (When (Author (commitAt ''Ann'' 905 ''fix bug''))) (Add (?clk (0 + length [(''a'', ?a)])) (- 100))"
    by (simp add: After_def Add_def commitAt_def)
  have agree: "\<forall>i<length [(''a'', ?a)] + 1. ?clk' (0 + i) = ?clk (0 + i)" by simp
  note both = C8_one_clock_reading_per_directory
    [where clk = ?clk and clk' = ?clk' and n = 0 and author = "''''" and short = False,
     OF before base head log window stop agree]
  note run = both [THEN conjunct1] and same = both [THEN conjunct2]
  show ?thesis unfolding same run
    by (simp add: messagesFor_def index_reset selected_def shown_def commitAt_def)
qed

text \<open>
  C9. When opening any directory fails, \<open>getRepositories\<close> returns an error and no
  repositories: the error of the first directory, in the order of the arguments, that fails
  to open. When for some directory
  of the run the head reference cannot be resolved, or the log cannot be started, or
  advancing the iterator fails (with an error, or with the end of history while the window
  is still open), \<open>getCommitMessages\<close> returns an error and no map, whatever was collected
  for other directories; when the directories visited before it were processed without
  error, it returns that very error.
\<close>

theorem C9_failure_aborts_whole_run:
  "(x \<in> set dirs \<and> PlainOpen x = Inl e'' \<longrightarrow> (\<exists>err. getRepositories PlainOpen dirs = Inl err))
   \<and> ((\<forall>x\<in>set ds. \<exists>r. PlainOpen x = Inr r) \<and> PlainOpen d = Inl e' \<longrightarrow>
      getRepositories PlainOpen (ds @ d # ds') = Inl e')
   \<and> (getBaseDirectoryName Getwd dir = Inr s
        \<and> (repo_Head repo = Inl e
           \<or> (\<exists>h. repo_Head repo = Inr h \<and> repo_Log repo h = Inl e)
           \<or> (\<exists>h cs post. repo_Head repo = Inr h \<and> repo_Log repo h = Inr (map Inr cs @ Inl e # post)
                 \<and> (\<forall>c\<in>set cs. After (When (Author c)) (Add (clk (n + length before)) (- since))))
           \<or> (\<exists>h cs. repo_Head repo = Inr h \<and> repo_Log repo h = Inr (map Inr cs) \<and> e = EOF
                 \<and> (\<forall>c\<in>set cs. After (When (Author c)) (Add (clk (n + length before)) (- since))))) \<longrightarrow>
      (\<exists>err. getCommitMessages Getwd clk n (before @ (dir, repo) # rest) author short since = Inl err)
      \<and> ((\<exists>st. getCommitMessages Getwd clk n before author short since = Inr st) \<longrightarrow>
            getCommitMessages Getwd clk n (before @ (dir, repo) # rest) author short since = Inl e))"
proof (rule conjI [OF _ conjI]; rule impI; elim conjE)
  assume "x \<in> set dirs" "PlainOpen x = Inl e''"
  then show "\<exists>err. getRepositories PlainOpen dirs = Inl err"
    unfolding getRepositories_def by (rule getRepositories_range_any_fails)
next
  assume "\<forall>x\<in>set ds. \<exists>r. PlainOpen x = Inr r" "PlainOpen d = Inl e'"
  then show "getRepositories PlainOpen (ds @ d # ds') = Inl e'"
    unfolding getRepositories_def by (rule getRepositories_range_fails)
next
  assume base: "getBaseDirectoryName Getwd dir = Inr s"
    and failure: "repo_Head repo = Inl e
           \<or> (\<exists>h. repo_Head repo = Inr h \<and> repo_Log repo h = Inl e)
           \<or> (\<exists>h cs post. repo_Head repo = Inr h \<and> repo_Log repo h = Inr (map Inr cs @ Inl e # post)
                 \<and> (\<forall>c\<in>set cs. After (When (Author c)) (Add (clk (n + length before)) (- since))))
           \<or> (\<exists>h cs. repo_Head repo = Inr h \<and> repo_Log repo h = Inr (map Inr cs) \<and> e = EOF
                 \<and> (\<forall>c\<in>set cs. After (When (Author c)) (Add (clk (n + length before)) (- since))))"
  have here: "\<And>m. getCommitMessages_dir Getwd clk author short since dir repo (m, n + length before) = Inl e"
    using base failure by (rule dir_fails)
  have after_success: "getCommitMessages Getwd clk n (before @ (dir, repo) # rest) author short since = Inl e"
    if "getCommitMessages Getwd clk n before author short since = Inr st" for st
  proof -
    obtain m k where st: "st = (m, k)" by (cases st)
    with that have "k = n + length before" by (auto dest: getCommitMessages_counter)
    with that st here[of m] show ?thesis
      by (simp add: getCommitMessages_def range_append)
  qed
  have fails: "\<exists>err. getCommitMessages Getwd clk n (before @ (dir, repo) # rest) author short since = Inl err"
  proof (cases "getCommitMessages Getwd clk n before author short since")
    case (Inl err)
    then show ?thesis by (simp add: getCommitMessages_def range_append)
  next
    case (Inr st)
    then show ?thesis using after_success by blast
  qed
  from fails after_success
  show "(\<exists>err. getCommitMessages Getwd clk n (before @ (dir, repo) # rest) author short since = Inl err)
      \<and> ((\<exists>st. getCommitMessages Getwd clk n before author short since = Inr st) \<longrightarrow>
            getCommitMessages Getwd clk n (before @ (dir, repo) # rest) author short since = Inl e)"
    by blast
qed

theorem C9_witness:
  "getRepositories (\<lambda>d. if d = ''work/api'' then Inr (repoOf []) else Inl (Err ''repository does not exist''))
      ([''work/api''] @ ''work/gone'' # [''work/web'']) = Inl (Err ''repository does not exist'')
   \<and> getCommitMessages (Inr ''/home/dev'') (\<lambda>k. 1000) 0
      ([(''api'', repoOf [Inr (commitAt ''Ann'' 990 ''fix bug''), Inr (commitAt ''Ann'' 100 ''initial commit'')])]
       @ (''web'', \<lparr>repo_Head = Inl (Err ''reference not found''), repo_Log = (\<lambda>h. Inr [])\<rparr>)
       # [(''docs'', repoOf [Inr (commitAt ''Ann'' 100 ''initial commit'')])])
      '''' False 50 = Inl (Err ''reference not found'')"
proof -
  let ?open = "\<lambda>d. if d = ''work/api'' then Inr (repoOf []) else Inl (Err ''repository does not exist'')"
  let ?api = "repoOf [Inr (commitAt ''Ann'' 990 ''fix bug''), Inr (commitAt ''Ann'' 100 ''initial commit'')]"
  let ?web = "\<lparr>repo_Head = Inl (Err ''reference not found''), repo_Log = (\<lambda>h. Inr [])\<rparr>"
  have opens: "(\<forall>x\<in>set [''work/api'']. \<exists>r. ?open x = Inr r)
      \<and> ?open ''work/gone'' = Inl (Err ''repository does not exist'')" by simp
  have base: "getBaseDirectoryName (Inr ''/home/dev'') ''web'' = Inr ''web''"
    by (simp add: getBaseDirectoryName_def filepath_Base_def)
  have failure: "repo_Head ?web = Inl (Err ''reference not found'')
       \<or> (\<exists>h. repo_Head ?web = Inr h \<and> repo_Log ?web h = Inl (Err ''reference not found''))
       \<or> (\<exists>h cs post. repo_Head ?web = Inr h
             \<and> repo_Log ?web h = Inr (map Inr cs @ Inl (Err ''reference not found'') # post)
             \<and> (\<forall>c\<in>set cs. After (When (Author c)) (Add ((\<lambda>k. 1000) (0 + length [(''api'', ?api)])) (- 50))))
       \<or> (\<exists>h cs. repo_Head ?web = Inr h \<and> repo_Log ?web h = Inr (map Inr cs)
             \<and> Err ''reference not found'' = EOF
             \<and> (\<forall>c\<in>set cs. After (When (Author c)) (Add ((\<lambda>k. 1000) (0 + length [(''api'', ?api)])) (- 50))))"
    by simp
  have before: "\<exists>st. getCommitMessages (Inr ''/home/dev'') (\<lambda>k. 1000) 0 [(''api'', ?api)] '''' False 50 = Inr st"
    by (simp add: run_simps)
  note all = C9_failure_aborts_whole_run
    [where clk = "\<lambda>k. 1000" and n = 0 and PlainOpen = ?open and author = "''''" and short = False
       and ds = "[''work/api'']" and d = "''work/gone''" and ds' = "[''work/web'']"
       and e' = "Err ''repository does not exist''"
       and Getwd = "Inr ''/home/dev''" and dir = "''web''" and s = "''web''" and repo = ?web
       and e = "Err ''reference not found''" and before = "[(''api'', ?api)]" and since = 50
       and rest = "[(''docs'', repoOf [Inr (commitAt ''Ann'' 100 ''initial commit'')])]"]
  from all [THEN conjunct2, THEN conjunct1, rule_format, OF opens]
    all [THEN conjunct2, THEN conjunct2, rule_format, OF conjI [OF base failure],
         THEN conjunct2, rule_format, OF before]
  show ?thesis by (intro conjI)
qed

text \<open>
  C10. The loop fetches the successor of the current commit before it decides about the
  current one. So when a walk is exhausted while the window is still open, that is, when
  every commit of the repository is strictly after the threshold of its directory, whatever
  the author filter and whether commits were appended or skipped on the way, the call of
  \<open>Next\<close> at the last commit returns the end-of-history error and \<open>getCommitMessages\<close>
  returns that error. No map is returned: the messages collected for the directories
  visited before (here \<open>before\<close>, processed without error into \<open>m\<close>) are discarded, and
  the directories after it are not visited.
\<close>

theorem C10_exhausted_walk_returns_EOF:
  assumes "getCommitMessages Getwd clk n before author short since = Inr (m, k)"
    and "getBaseDirectoryName Getwd dir = Inr s"
    and "repo_Head repo = Inr h"
    and "repo_Log repo h = Inr (map Inr cs)"
    and "\<forall>c\<in>set cs. After (When (Author c)) (Add (clk k) (- since))"
  shows "getCommitMessages Getwd clk n (before @ (dir, repo) # rest) author short since = Inl EOF"
proof -
  have "getCommitMessages_dir Getwd clk author short since dir repo (m, k) = Inl EOF"
    using assms(2-5) by (rule dir_EOF)
  with assms(1) show ?thesis
    unfolding getCommitMessages_def by (rule range_prefix_fails)
qed

theorem C10_witness:
  "messagesFor (getCommitMessages (Inr ''/home/dev'') (\<lambda>k. 1000) 0
       [(''api'', repoOf [Inr (commitAt ''Ann'' 990 ''fix bug''), Inr (commitAt ''Ann'' 100 ''initial commit'')])]
       ''Ann'' False 50) ''api'' = Inr [''fix bug'']
   \<and> getCommitMessages (Inr ''/home/dev'') (\<lambda>k. 1000) 0
       ([(''api'', repoOf [Inr (commitAt ''Ann'' 990 ''fix bug''), Inr (commitAt ''Ann'' 100 ''initial commit'')])]
        @ (''fresh'', repoOf (map Inr [commitAt ''Ann'' 995 ''second'', commitAt ''Bob'' 980 ''first''])) # [])
       ''Ann'' False 50 = Inl EOF"
proof -
  let ?api = "repoOf [Inr (commitAt ''Ann'' 990 ''fix bug''), Inr (commitAt ''Ann'' 100 ''initial commit'')]"
  let ?fresh = "repoOf (map Inr [commitAt ''Ann'' 995 ''second'', commitAt ''Bob'' 980 ''first''])"
  have shown: "messagesFor (getCommitMessages (Inr ''/home/dev'') (\<lambda>k. 1000) 0 [(''api'', ?api)] ''Ann'' False 50) ''api''
      = Inr [''fix bug'']"
    by (simp add: run_simps)
  obtain m where before: "getCommitMessages (Inr ''/home/dev'') (\<lambda>k. 1000) 0 [(''api'', ?api)] ''Ann'' False 50 = Inr (m, 1)"
    by (simp add: run_simps)
  have base: "getBaseDirectoryName (Inr ''/home/dev'') ''fresh'' = Inr ''fresh''"
    by (simp add: getBaseDirectoryName_def filepath_Base_def)
  have head: "repo_Head ?fresh = Inr ''HEAD''" by (simp add: repoOf_def)
  have log: "repo_Log ?fresh ''HEAD'' = Inr (map Inr [commitAt ''Ann'' 995 ''second'', commitAt ''Bob'' 980 ''first''])"
    by (simp add: repoOf_def)
  have window: "\<forall>c\<in>set [commitAt ''Ann'' 995 ''second'', commitAt ''Bob'' 980 ''first''].
      After (When (Author c)) (Add ((\<lambda>k. 1000) (1::nat)) (- 50))"
    by (simp add: After_def Add_def commitAt_def)
  from shown C10_exhausted_walk_returns_EOF [OF before base head log window, of "[]"]
  show ?thesis by simp
qed

end
